theory Spec2Isabelle
  imports Main "HOL-Library.Word"
begin

unbundle bit_operations_syntax

section \<open>Common types\<close>

text \<open>
  A byte of a binary buffer is an 8-bit word. Text handled by the HTTP layer and
  the socket buffer is a \<open>string\<close> (a list of 8-bit characters), as \<open>std::string\<close> is.
\<close>

type_synonym byte = "8 word"

text \<open>
  Reading or writing outside an allocated block, or dereferencing the end iterator of
  an empty string, is undefined behaviour in the source; the model returns a fault.
\<close>

datatype fault = OutOfBounds | DerefEmpty

section \<open>DTSC seek positions (dtsc.h)\<close>

record seekPos =
  seekTime :: "64 word"
  bytePos :: "64 word"
  trackID :: "32 word"

text \<open>\<open>DTSC::seekPos::operator<\<close>, branch by branch.\<close>

definition seekPos_less :: "seekPos \<Rightarrow> seekPos \<Rightarrow> bool" where
  "seekPos_less a rhs =
     (if seekTime a < seekTime rhs then True
      else if seekTime a = seekTime rhs then
        (if bytePos a < bytePos rhs then True
         else if trackID a < trackID rhs then True
         else False)
      else False)"

text \<open>\<open>DTSC::livePos::operator<\<close>, the sibling ordering on (seekTime, trackID).\<close>

record livePos =
  live_seekTime :: "64 word"
  live_trackID :: "32 word"

definition livePos_less :: "livePos \<Rightarrow> livePos \<Rightarrow> bool" where
  "livePos_less a rhs =
     (if live_seekTime a < live_seekTime rhs then True
      else if live_seekTime a = live_seekTime rhs then
        (if live_trackID a < live_trackID rhs then True else False)
      else False)"

section \<open>FLV tags (flv_tag.cpp)\<close>

text \<open>
  The tag object. \<open>data\<close> is the owned buffer: \<open>None\<close> is the null pointer, \<open>Some bs\<close>
  an allocated block holding the bytes \<open>bs\<close>. \<open>len\<close> and \<open>buf\<close> are the \<open>int\<close> fields of
  the class, \<open>tag_done\<close> is its field \<open>done\<close> and \<open>sofar\<close> its unsigned progress counter.

  Modelled from the spec: the element type of \<open>data\<close> is declared in flv_tag.h, which
  is not among the sources; the spec's data model has the buffer hold bytes
  (\<open>data[0]\<close> is the 1-byte type, with values up to 0xFF), so an element is read as an
  unsigned value between 0 and 255 when it is promoted to \<open>int\<close>.
\<close>

record Tag =
  len :: int
  isKeyframe :: bool
  data :: "byte list option"
  buf :: int
  tag_done :: bool
  sofar :: nat




text \<open>Sequencing of steps that may fault.\<close>

definition bindF :: "fault + 'a \<Rightarrow> ('a \<Rightarrow> fault + 'b) \<Rightarrow> fault + 'b" where
  "bindF m f = (case m of Inl e \<Rightarrow> Inl e | Inr x \<Rightarrow> f x)"

























text \<open>
  What \<open>DTSCLoader\<close> reads from the stream: the type and payload of the last packet,
  its members, and the codec, rate, size and channels of its track. \<open>track_codec\<close> is
  \<open>None\<close> when the track has no member \<open>codec\<close>. \<open>meta_str\<close> is the AMF packing of the
  packet's data, which is computed outside the sources.
\<close>

datatype DTSC_datatype = AUDIO | VIDEO | META | PAUSEMARK | MODIFIEDHEADER | INVALID




















section \<open>Segmented byte buffer (socket.cpp)\<close>

text \<open>
  \<open>Socket::Buffer\<close> holds a \<open>std::deque<std::string>\<close>. The model is the list of its
  blocks from front to back: \<open>push_front\<close> is \<open>#\<close>, the back block is \<open>last\<close>.
\<close>

type_synonym Buffer = "string list"

definition BUFFER_BLOCKSIZE :: nat where
  "BUFFER_BLOCKSIZE = 4096"

abbreviation LF :: char where "LF \<equiv> CHR 0x0A"
abbreviation CR :: char where "CR \<equiv> CHR 0x0D"

text \<open>
  The inner loop of \<open>append\<close>: \<open>rest\<close> is the input from index \<open>j\<close> on, \<open>k\<close> is \<open>j - i\<close>;
  the result is the final value of \<open>j - i\<close>.
\<close>

fun block_scan :: "string \<Rightarrow> nat \<Rightarrow> nat" where
  "block_scan [] k = k"
| "block_scan (c # cs) k =
     (if k \<le> BUFFER_BLOCKSIZE then (if c = LF then Suc k else block_scan cs (Suc k)) else k)"

text \<open>The outer loop of \<open>append\<close>: \<open>rest\<close> is the input from index \<open>i\<close> on.\<close>

function append_loop :: "Buffer \<Rightarrow> string \<Rightarrow> Buffer" where
  "append_loop d rest =
     (if rest = [] then d
      else let k = block_scan rest 0
           in if k \<noteq> 0 then append_loop (take k rest # d) (drop k rest) else d)"
  by pat_completeness auto
termination
  by (relation "measure (\<lambda>(d, rest). length rest)") auto

text \<open>\<open>Socket::Buffer::append(const char * newdata, const unsigned int newdatasize)\<close>;
  the string is the \<open>newdatasize\<close> bytes at \<open>newdata\<close>.\<close>

definition Buffer_append :: "string \<Rightarrow> Buffer \<Rightarrow> Buffer" where
  "Buffer_append newdata d = append_loop d newdata"

definition Buffer_prepend :: "string \<Rightarrow> Buffer \<Rightarrow> Buffer" where
  "Buffer_prepend newdata d = d @ [newdata]"

text \<open>\<open>Socket::Buffer::available\<close>: the counter \<open>i\<close> is an \<open>unsigned int\<close>.\<close>

fun available_loop :: "nat \<Rightarrow> nat \<Rightarrow> Buffer \<Rightarrow> bool" where
  "available_loop count i [] = False"
| "available_loop count i (b # bs) =
     (let i' = (i + length b) mod 2 ^ 32
      in if i' \<ge> count then True else available_loop count i' bs)"

definition Buffer_available :: "nat \<Rightarrow> Buffer \<Rightarrow> bool" where
  "Buffer_available count d = available_loop count 0 d"

text \<open>
  The loop of \<open>remove\<close> over the blocks from back to front. It returns the bytes
  collected and the blocks as it leaves them, in the same order. The counter \<open>i\<close> stays
  below \<open>count\<close>, an \<open>unsigned int\<close>, and the sum \<open>i + (*it).size()\<close> is formed in
  \<open>size_t\<close>.
\<close>

fun remove_loop :: "nat \<Rightarrow> nat \<Rightarrow> string list \<Rightarrow> string \<times> string list" where
  "remove_loop count i [] = ([], [])"
| "remove_loop count i (b # bs) =
     (if i + length b < count then
        (let (r, bs') = remove_loop count (i + length b) bs in (b @ r, [] # bs'))
      else (take (count - i) b, drop (count - i) b # bs))"

definition Buffer_remove :: "nat \<Rightarrow> Buffer \<Rightarrow> string \<times> Buffer" where
  "Buffer_remove count d =
     (if \<not> Buffer_available count d then ([], d)
      else let (ret, bs) = remove_loop count 0 (rev d) in (ret, rev bs))"

text \<open>The bytes queued in a buffer, oldest first.\<close>

definition contents :: "Buffer \<Rightarrow> string" where
  "contents d = concat (rev d)"


section \<open>HTTP parser (http_parser.cpp)\<close>

text \<open>\<open>std::string::find(c)\<close>: the index of the first occurrence, \<open>None\<close> for \<open>npos\<close>.\<close>

fun find_char :: "char \<Rightarrow> string \<Rightarrow> nat option" where
  "find_char c [] = None"
| "find_char c (x # xs) = (if x = c then Some 0 else map_option Suc (find_char c xs))"

text \<open>\<open>std::string::find(c, pos)\<close>.\<close>

definition find_char_from :: "char \<Rightarrow> nat \<Rightarrow> string \<Rightarrow> nat option" where
  "find_char_from c pos s = map_option (\<lambda>i. i + pos) (find_char c (drop pos s))"

text \<open>\<open>find_first_not_of\<close> and \<open>find_last_not_of\<close> for a set of characters.\<close>

fun find_first_not_of :: "string \<Rightarrow> string \<Rightarrow> nat option" where
  "find_first_not_of chars [] = None"
| "find_first_not_of chars (x # xs) =
     (if x \<notin> set chars then Some 0 else map_option Suc (find_first_not_of chars xs))"

definition find_last_not_of :: "string \<Rightarrow> string \<Rightarrow> nat option" where
  "find_last_not_of chars s =
     map_option (\<lambda>i. length s - 1 - i) (find_first_not_of chars (rev s))"

text \<open>\<open>s.substr(pos, n)\<close> for \<open>pos\<close> within the string.\<close>

definition substr :: "string \<Rightarrow> nat \<Rightarrow> nat \<Rightarrow> string" where
  "substr s pos n = take n (drop pos s)"

text \<open>\<open>HTTP::Parser::Trim\<close>.\<close>

definition Trim :: "string \<Rightarrow> string" where
  "Trim s =
     (case (find_first_not_of [CHR '' '', CHR 0x09] s, find_last_not_of [CHR '' '', CHR 0x09] s) of
        (Some startpos, Some endpos) \<Rightarrow> substr s startpos (endpos - startpos + 1)
      | _ \<Rightarrow> [])"

text \<open>
  The value of a \<open>char\<close> promoted to \<open>int\<close> (read as an unsigned byte, as for the FLV
  buffer) and the conversion of an \<open>int\<close> back to a \<open>char\<close>, which keeps the low 8 bits.
\<close>

definition char_val :: "char \<Rightarrow> int" where
  "char_val c = of_char c"

definition to_char :: "int \<Rightarrow> char" where
  "to_char v = char_of v"

text \<open>\<open>HTTP::Parser::unhex\<close>.\<close>

definition unhex :: "char \<Rightarrow> int" where
  "unhex c =
     (if char_val c \<ge> char_val (CHR ''0'') \<and> char_val c \<le> char_val (CHR ''9'')
        then char_val c - char_val (CHR ''0'')
      else if char_val c \<ge> char_val (CHR ''A'') \<and> char_val c \<le> char_val (CHR ''F'')
        then char_val c - char_val (CHR ''A'') + 10
      else char_val c - char_val (CHR ''a'') + 10)"

text \<open>
  \<open>HTTP::Parser::urlunescape\<close>. The list is the input from index \<open>i\<close> on. A \<open>%\<close> takes
  the next two characters as hex digits where they exist; \<open>tmp\<close> is a \<open>char\<close>, so each
  assignment keeps the low 8 bits.
\<close>

fun urlunescape :: "string \<Rightarrow> string" where
  "urlunescape [] = []"
| "urlunescape (c # cs) =
     (if c = CHR ''%'' then
        (case cs of
           [] \<Rightarrow> [to_char 0]
         | [a] \<Rightarrow> [to_char (char_val (to_char (unhex a * 16)))]
         | a # b # rest \<Rightarrow>
             to_char (char_val (to_char (unhex a * 16)) + unhex b) # urlunescape rest)
      else (if c = CHR ''+'' then CHR '' '' else c) # urlunescape cs)"

text \<open>\<open>HTTP::Parser::hex\<close>: the two digits are computed in \<open>char\<close> variables.\<close>

definition hex :: "char \<Rightarrow> string" where
  "hex dec =
     (let dig1 = drop_bit 4 (char_val dec AND 0xF0);
          dig2 = char_val dec AND 0x0F;
          dig1 = (if dig1 \<le> 9 then dig1 + 48 else dig1);
          dig1 = (if 10 \<le> dig1 \<and> dig1 \<le> 15 then dig1 + 97 - 10 else dig1);
          dig2 = (if dig2 \<le> 9 then dig2 + 48 else dig2);
          dig2 = (if 10 \<le> dig2 \<and> dig2 \<le> 15 then dig2 + 97 - 10 else dig2)
      in [to_char dig1, to_char dig2])"

text \<open>\<open>HTTP::Parser::urlencode\<close>.\<close>

definition unreserved :: "char \<Rightarrow> bool" where
  "unreserved c \<longleftrightarrow>
     (char_val (CHR ''0'') \<le> char_val c \<and> char_val c \<le> char_val (CHR ''9''))
     \<or> (char_val (CHR ''a'') \<le> char_val c \<and> char_val c \<le> char_val (CHR ''z''))
     \<or> (char_val (CHR ''A'') \<le> char_val c \<and> char_val c \<le> char_val (CHR ''Z''))
     \<or> (c = CHR ''~'' \<or> c = CHR ''!'' \<or> c = CHR ''*'' \<or> c = CHR ''('' \<or> c = CHR '')''
         \<or> c = CHR 0x27)"

fun urlencode :: "string \<Rightarrow> string" where
  "urlencode [] = []"
| "urlencode (c # cs) = (if unreserved c then [c] else CHR ''%'' # hex c) @ urlencode cs"


text \<open>
  The parser object. \<open>p_length\<close> and \<open>p_method\<close> are its fields \<open>length\<close> and
  \<open>method\<close>; \<open>headers\<close> and \<open>vars\<close> are the two
  \<open>std::map<std::string, std::string>\<close> members.
\<close>

record Parser =
  body :: string
  p_method :: string
  url :: string
  protocol :: string
  p_length :: "32 word"
  headerOnly :: bool
  seenHeaders :: bool
  seenReq :: bool
  getChunks :: bool
  doingChunk :: "32 word"
  headers :: "string \<rightharpoonup> string"
  vars :: "string \<rightharpoonup> string"

text \<open>\<open>HTTP::Parser::Clean\<close>, and the constructor, which clears \<open>headerOnly\<close> and calls it.\<close>

definition Clean :: "Parser \<Rightarrow> Parser" where
  "Clean p =
     p\<lparr>seenHeaders := False, seenReq := False, getChunks := False, doingChunk := 0,
       p_method := ''GET'', url := ''/'', protocol := ''HTTP/1.1'', body := [],
       p_length := 0, headers := Map.empty, vars := Map.empty\<rparr>"

definition Parser_new :: Parser where
  "Parser_new =
     Clean \<lparr>body = [], p_method = [], url = [], protocol = [], p_length = 0,
            headerOnly = False, seenHeaders = False, seenReq = False, getChunks = False,
            doingChunk = 0, headers = Map.empty, vars = Map.empty\<rparr>"

text \<open>\<open>HTTP::Parser::SetHeader(std::string, std::string)\<close>.\<close>

definition SetHeader :: "string \<Rightarrow> string \<Rightarrow> Parser \<Rightarrow> Parser" where
  "SetHeader i v p = p\<lparr>headers := (headers p)(Trim i \<mapsto> Trim v)\<rparr>"

text \<open>\<open>HTTP::Parser::GetHeader\<close>: \<open>headers[i]\<close> inserts an empty value for a missing key.\<close>

definition GetHeader :: "string \<Rightarrow> Parser \<Rightarrow> string \<times> Parser" where
  "GetHeader i p =
     (case headers p i of
        None \<Rightarrow> ([], p\<lparr>headers := (headers p)(i \<mapsto> [])\<rparr>)
      | Some v \<Rightarrow> (v, p))"

text \<open>\<open>HTTP::Parser::SetVar\<close>.\<close>

definition SetVar :: "string \<Rightarrow> string \<Rightarrow> Parser \<Rightarrow> Parser" where
  "SetVar i v p = (if Trim i \<noteq> [] then p\<lparr>vars := (vars p)(Trim i \<mapsto> Trim v)\<rparr> else p)"

text \<open>
  \<open>HTTP::Parser::parseVars\<close>: the loop over \<open>pos\<close>. \<open>nextpos\<close> is replaced by the length
  of the data when no \<open>&\<close> follows, so the test \<open>nextpos == npos\<close> never holds; a missing
  \<open>=\<close> gives \<open>npos\<close>, which is not smaller than \<open>nextpos\<close>.
\<close>

function parseVars_loop :: "string \<Rightarrow> nat \<Rightarrow> Parser \<Rightarrow> Parser" where
  "parseVars_loop dat pos p =
     (if pos < length dat then
        (let nextpos = (case find_char_from (CHR ''&'') pos dat of None \<Rightarrow> length dat | Some n \<Rightarrow> n);
             (varname, varval) =
               (case find_char_from (CHR ''='') pos dat of
                  None \<Rightarrow> (substr dat pos (nextpos - pos), [])
                | Some eq_pos \<Rightarrow>
                    if eq_pos < nextpos
                    then (substr dat pos (eq_pos - pos), substr dat (eq_pos + 1) (nextpos - eq_pos - 1))
                    else (substr dat pos (nextpos - pos), []))
         in parseVars_loop dat (nextpos + 1) (SetVar (urlunescape varname) (urlunescape varval) p))
      else p)"
  by pat_completeness auto
termination
  by (relation "measure (\<lambda>(dat, pos, p). length dat - pos)")
     (auto simp: find_char_from_def split: option.splits)

definition parseVars :: "string \<Rightarrow> Parser \<Rightarrow> Parser" where
  "parseVars dat p = parseVars_loop dat 0 p"

text \<open>
  The C library's \<open>atoi\<close>: leading white space, an optional sign, then decimal digits.
  The result is stored in the \<open>unsigned int\<close> field \<open>length\<close>, that is modulo \<open>2 ^ 32\<close>.
\<close>

definition isspace :: "char \<Rightarrow> bool" where
  "isspace c \<longleftrightarrow> c \<in> set [CHR '' '', CHR 0x09, CHR 0x0A, CHR 0x0B, CHR 0x0C, CHR 0x0D]"

fun digits_value :: "int \<Rightarrow> string \<Rightarrow> int" where
  "digits_value acc [] = acc"
| "digits_value acc (c # cs) =
     (if char_val (CHR ''0'') \<le> char_val c \<and> char_val c \<le> char_val (CHR ''9'')
      then digits_value (acc * 10 + (char_val c - char_val (CHR ''0''))) cs
      else acc)"

definition atoi :: "string \<Rightarrow> int" where
  "atoi s =
     (case dropWhile isspace s of
        [] \<Rightarrow> 0
      | c # cs \<Rightarrow>
          if c = CHR ''-'' then - digits_value 0 cs
          else if c = CHR ''+'' then digits_value 0 cs
          else digits_value 0 (c # cs))"

text \<open>The loop that strips a line at its first carriage return: after one pass no
  carriage return is left.\<close>

definition strip_cr :: "string \<Rightarrow> string" where
  "strip_cr tmpA = (case find_char CR tmpA of None \<Rightarrow> tmpA | Some f \<Rightarrow> take f tmpA)"

text \<open>
  The request or response line (\<open>seenReq\<close> is false): three tokens separated by single
  spaces, a response when the line begins with \<open>HTTP\<close>.
\<close>

definition parse_reqline :: "string \<Rightarrow> Parser \<Rightarrow> Parser" where
  "parse_reqline tmpA p0 =
     (let p = p0\<lparr>seenReq := True\<rparr>
      in case find_char (CHR '' '') tmpA of
           None \<Rightarrow> p\<lparr>seenReq := False\<rparr>
         | Some f \<Rightarrow>
             if substr tmpA 0 4 = ''HTTP'' then
               (let p1 = p\<lparr>protocol := substr tmpA 0 f\<rparr>;
                    tmpA1 = drop (f + 1) tmpA
                in case find_char (CHR '' '') tmpA1 of
                     None \<Rightarrow> p1\<lparr>seenReq := False\<rparr>
                   | Some f1 \<Rightarrow>
                       (let p2 = p1\<lparr>url := substr tmpA1 0 f1, p_method := drop (f1 + 1) tmpA1\<rparr>
                        in case find_char (CHR ''?'') (url p2) of
                             None \<Rightarrow> p2
                           | Some q \<Rightarrow> parseVars (drop (q + 1) (url p2)) p2))
             else
               (let p1 = p\<lparr>p_method := substr tmpA 0 f\<rparr>;
                    tmpA1 = drop (f + 1) tmpA
                in case find_char (CHR '' '') tmpA1 of
                     None \<Rightarrow> p1\<lparr>seenReq := False\<rparr>
                   | Some f1 \<Rightarrow>
                       (let p2 = p1\<lparr>url := substr tmpA1 0 f1, protocol := drop (f1 + 1) tmpA1\<rparr>
                        in case find_char (CHR ''?'') (url p2) of
                             None \<Rightarrow> p2
                           | Some q \<Rightarrow> parseVars (drop (q + 1) (url p2)) p2)))"

text \<open>
  A header line (\<open>seenReq\<close> is true). The empty line ends the headers; a line without a
  colon is skipped (the \<open>continue\<close> of the source, which goes back to the loop test as
  the fall-through does, since \<open>seenHeaders\<close> is still false).
\<close>

definition parse_headerline :: "string \<Rightarrow> Parser \<Rightarrow> Parser" where
  "parse_headerline tmpA p0 =
     (if tmpA = [] then
        (let p = p0\<lparr>seenHeaders := True, body := []\<rparr>;
             (cl, p) = GetHeader ''Content-Length'' p;
             p = (if cl \<noteq> [] then
                    (let (cl2, p') = GetHeader ''Content-Length'' p
                     in p'\<lparr>p_length := word_of_int (atoi cl2)\<rparr>)
                  else p);
             (te, p) = GetHeader ''Transfer-Encoding'' p
         in if te = ''chunked'' then p\<lparr>getChunks := True, doingChunk := 0\<rparr> else p)
      else
        (case find_char (CHR '':'') tmpA of
           None \<Rightarrow> p0
         | Some f \<Rightarrow> SetHeader (substr tmpA 0 f) (drop (f + 1) tmpA) p0))"

text \<open>The chunk length line: \<open>chunkLen = (chunkLen << 4) | unhex(tmpA[i])\<close> for each
  character, in \<open>unsigned int\<close>.\<close>

fun read_chunkLen :: "32 word \<Rightarrow> string \<Rightarrow> 32 word" where
  "read_chunkLen chunkLen [] = chunkLen"
| "read_chunkLen chunkLen (c # cs) = read_chunkLen (push_bit 4 chunkLen OR word_of_int (unhex c)) cs"

text \<open>
  The block \<open>if (seenHeaders){...}\<close> of \<open>parse\<close>, which returns on every path. The
  result is the returned flag, the parser and what is left of the buffer.
\<close>

definition parse_body :: "Parser \<Rightarrow> string \<Rightarrow> bool \<times> Parser \<times> string" where
  "parse_body p HTTPbuffer =
     (if p_length p > 0 then
        (if headerOnly p then (True, p, HTTPbuffer)
         else
           (let toappend = unat (p_length p - word_of_nat (length (body p)));
                (p1, buf1) =
                  (if toappend > 0
                   then (p\<lparr>body := body p @ take toappend HTTPbuffer\<rparr>, drop toappend HTTPbuffer)
                   else (p, HTTPbuffer))
            in if unat (p_length p1) = length (body p1)
               then (True, parseVars (body p1) p1, buf1)
               else (False, p1, buf1)))
      else if getChunks p then
        (if headerOnly p then (True, p, HTTPbuffer)
         else if doingChunk p \<noteq> 0 then
           (let toappend = unat (word_of_nat (length HTTPbuffer) :: 32 word);
                toappend = (if toappend > unat (doingChunk p) then unat (doingChunk p) else toappend)
            in (False,
                p\<lparr>body := body p @ take toappend HTTPbuffer,
                  doingChunk := doingChunk p - word_of_nat toappend\<rparr>,
                drop toappend HTTPbuffer))
         else
           (case find_char LF HTTPbuffer of
              None \<Rightarrow> (False, p, HTTPbuffer)
            | Some f \<Rightarrow>
                (let tmpA = strip_cr (substr HTTPbuffer 0 f)
                 in if tmpA \<noteq> [] then
                      (let chunkLen = read_chunkLen 0 tmpA
                       in if chunkLen = 0 then (True, p\<lparr>getChunks := False\<rparr>, HTTPbuffer)
                          else (False, p\<lparr>doingChunk := chunkLen\<rparr>, drop (f + 1) HTTPbuffer))
                    else (False, p, drop (f + 1) HTTPbuffer))))
      else (True, p, HTTPbuffer))"

text \<open>\<open>HTTP::Parser::parse\<close>: the loop \<open>while (!HTTPbuffer.empty())\<close>.\<close>

function parse :: "Parser \<Rightarrow> string \<Rightarrow> bool \<times> Parser \<times> string" where
  "parse p HTTPbuffer =
     (if HTTPbuffer = [] then (False, p, HTTPbuffer)
      else if \<not> seenHeaders p then
        (case find_char LF HTTPbuffer of
           None \<Rightarrow> (False, p, HTTPbuffer)
         | Some f \<Rightarrow>
             (let tmpA = strip_cr (substr HTTPbuffer 0 f);
                  buf' = drop (f + 1) HTTPbuffer;
                  p' = (if \<not> seenReq p then parse_reqline tmpA p else parse_headerline tmpA p)
              in if seenHeaders p' then parse_body p' buf' else parse p' buf'))
      else parse_body p HTTPbuffer)"
  by pat_completeness auto
termination
  by (relation "measure (\<lambda>(p, b). length b)") auto

text \<open>\<open>HTTP::Parser::Read(std::string & strbuf)\<close>.\<close>

definition Read_string :: "Parser \<Rightarrow> string \<Rightarrow> bool \<times> Parser \<times> string" where
  "Read_string p strbuf = parse p strbuf"

text \<open>Calling \<open>Read\<close> on the remaining buffer until it returns true, at most \<open>n\<close> times.\<close>

fun Read_repeat :: "nat \<Rightarrow> Parser \<Rightarrow> string \<Rightarrow> (Parser \<times> string) option" where
  "Read_repeat 0 p strbuf = None"
| "Read_repeat (Suc n) p strbuf =
     (case Read_string p strbuf of
        (True, p', rest) \<Rightarrow> Some (p', rest)
      | (False, p', rest) \<Rightarrow> Read_repeat n p' rest)"

definition chunked_response :: string where
  "chunked_response =
     ''HTTP/1.1 200 OK'' @ [CR, LF] @ ''Transfer-Encoding: chunked'' @ [CR, LF] @ [CR, LF]
     @ ''5'' @ [CR, LF] @ ''hello'' @ [CR, LF] @ ''0'' @ [CR, LF] @ [CR, LF]"


section \<open>Reading from a connection\<close>

text \<open>\<open>Socket::Buffer::size\<close>: pops the back block while it is empty, then counts.\<close>

definition Buffer_size :: "Buffer \<Rightarrow> nat \<times> Buffer" where
  "Buffer_size d = (let d' = rev (dropWhile (\<lambda>b. b = []) (rev d)) in (length d', d'))"

text \<open>
  The receive buffer of a connection together with the function-local
  \<open>static std::string empty\<close> of \<open>Socket::Buffer::get\<close>, which is shared and mutable
  through the reference that \<open>get\<close> returns.
\<close>

record Received =
  r_data :: Buffer
  r_empty :: string

text \<open>\<open>Socket::Buffer::get\<close> returns a reference: reading through it, and writing
  through it.\<close>

definition Buffer_get :: "Received \<Rightarrow> string" where
  "Buffer_get st = (if r_data st \<noteq> [] then last (r_data st) else r_empty st)"

definition Buffer_get_assign :: "string \<Rightarrow> Received \<Rightarrow> Received" where
  "Buffer_get_assign s st =
     (if r_data st \<noteq> [] then st\<lparr>r_data := butlast (r_data st) @ [s]\<rparr> else st\<lparr>r_empty := s\<rparr>)"

text \<open>
  The loop at the head of \<open>HTTP::Parser::Read(Socket::Connection &)\<close>. It dereferences
  \<open>rbegin()\<close> of the string that \<open>get\<close> returns. The result \<open>Inr (True, st)\<close> means that the
  loop was left with a block that ends in a newline, \<open>Inr (False, st)\<close> that \<open>Read\<close>
  returns false.
\<close>

function Read_join :: "Received \<Rightarrow> fault + (bool \<times> Received)" where
  "Read_join st =
     (if Buffer_get st = [] then Inl DerefEmpty
      else if last (Buffer_get st) \<noteq> LF then
        (let (n, d1) = Buffer_size (r_data st);
             st1 = st\<lparr>r_data := d1\<rparr>
         in if n > 1 then
              (let tmp = Buffer_get st1;
                   st2 = Buffer_get_assign [] st1;
                   st3 = st2\<lparr>r_data := snd (Buffer_size (r_data st2))\<rparr>;
                   st4 = Buffer_get_assign (tmp @ Buffer_get st3) st3
               in Read_join st4)
            else Inr (False, st1))
      else Inr (True, st))"
  by pat_completeness auto
termination
proof (relation "measure (\<lambda>st. length (r_data st))", goal_cases)
  case 1
  show ?case by simp
next
  case (2 st x n d1 st1 tmp st2 st3 st4)
  have d1: "d1 = rev (dropWhile (\<lambda>b. b = []) (rev (r_data st)))" and n: "n = length d1"
    using 2 by (auto simp: Buffer_size_def Let_def)
  have ne: "d1 \<noteq> []"
    using 2 n by auto
  have "r_data st2 = butlast d1 @ [[]]"
    using 2 ne by (simp add: Buffer_get_assign_def)
  then have "r_data st3 = rev (dropWhile (\<lambda>b. b = []) (rev (butlast d1)))"
    using 2 by (simp add: Buffer_size_def Let_def)
  then have "length (r_data st3) \<le> length (butlast d1)"
    using length_dropWhile_le [of "\<lambda>b. b = []" "rev (butlast d1)"] by simp
  moreover have "length (r_data st4) = length (r_data st3)"
    using 2 by (simp add: Buffer_get_assign_def)
  moreover have "length d1 \<le> length (r_data st)"
    unfolding d1 using length_dropWhile_le [of "\<lambda>b. b = []" "rev (r_data st)"] by simp
  ultimately show ?case
    using ne by (cases d1 rule: rev_cases) auto
qed

text \<open>\<open>HTTP::Parser::Read(Socket::Connection & conn)\<close>: the loop, then \<open>parse\<close> on the
  string that \<open>get\<close> refers to.\<close>

definition Read_conn :: "Parser \<Rightarrow> Received \<Rightarrow> fault + (bool \<times> Parser \<times> Received)" where
  "Read_conn p st =
     (case Read_join st of
        Inl e \<Rightarrow> Inl e
      | Inr (False, st') \<Rightarrow> Inr (False, p, st')
      | Inr (True, st') \<Rightarrow>
          (let (r, p', rest) = parse p (Buffer_get st')
           in Inr (r, p', Buffer_get_assign rest st')))"


section \<open>MP4 header synthesis (mp4_conv.cpp)\<close>

text \<open>
  The part of the stream metadata that the chunk offsets depend on: the tracks in the
  order in which the JSON object iterates over them, each with its name, its
  \<open>trackid\<close> and its keys; a key has \<open>size\<close>, \<open>time\<close>, \<open>len\<close>, the encoded part sizes
  \<open>parts\<close> and the number of parts \<open>partsize\<close>. The integers are what \<open>asInt()\<close> returns.
\<close>

record Key =
  k_size :: int
  k_time :: int
  k_len :: int
  k_parts :: string
  k_partsize :: int

record Track =
  t_trackid :: int
  t_keys :: "Key list"

text \<open>The struct \<open>keyPart\<close> that the converter fills from a key.\<close>

record keyPart =
  kp_trackID :: int
  kp_size :: int
  kp_time :: int
  kp_len :: int
  kp_parts :: string
  kp_partsize :: int

text \<open>
  \<open>keyParts\<close> is a \<open>std::set<keyPart>\<close>. Its ordering \<open>operator<\<close> is declared in mp4.h,
  which is not among the sources, and is a parameter \<open>lt\<close> here. The set is the list
  of its elements in iteration order; \<open>insert\<close> puts an element before the first
  larger one and drops it when an equivalent element is present.
\<close>

fun set_insert :: "('a \<Rightarrow> 'a \<Rightarrow> bool) \<Rightarrow> 'a \<Rightarrow> 'a list \<Rightarrow> 'a list" where
  "set_insert lt x [] = [x]"
| "set_insert lt x (y # ys) =
     (if lt x y then x # y # ys
      else if lt y x then y # set_insert lt x ys
      else y # ys)"

text \<open>The two nested loops that collect the keys of all tracks (pass 1).\<close>

definition insert_key :: "(keyPart \<Rightarrow> keyPart \<Rightarrow> bool) \<Rightarrow> int \<Rightarrow> keyPart list \<Rightarrow> Key \<Rightarrow> keyPart list" where
  "insert_key lt trackid keyParts k =
     (if k_size k > 0 then
        set_insert lt
          \<lparr>kp_trackID = trackid, kp_size = k_size k, kp_time = k_time k, kp_len = k_len k,
           kp_parts = k_parts k, kp_partsize = k_partsize k\<rparr> keyParts
      else keyParts)"

definition collect_keyParts ::
  "(keyPart \<Rightarrow> keyPart \<Rightarrow> bool) \<Rightarrow> (string \<times> Track) list \<Rightarrow> keyPart list" where
  "collect_keyParts lt tracks =
     foldl (\<lambda>keyParts (name, tr). foldl (insert_key lt (t_trackid tr)) keyParts (t_keys tr))
       [] tracks"

text \<open>
  Modelled from the spec: the box class \<open>MP4::STCO\<close> is defined in mp4.cpp, which is
  not among the sources. The spec has the box hold one 64-bit chunk offset per entry
  (version 1); \<open>setChunkOffset(v, no)\<close> stores \<open>v\<close> as entry \<open>no\<close>, growing the table
  with zero entries up to \<open>no\<close>, \<open>getChunkOffset(no)\<close> reads an entry and
  \<open>getEntryCount()\<close> is the number of entries. The index is a \<open>uint32_t\<close>.
\<close>

type_synonym STCO = "64 word list"

definition setChunkOffset :: "64 word \<Rightarrow> 32 word \<Rightarrow> STCO \<Rightarrow> STCO" where
  "setChunkOffset v no box =
     (if unat no < length box then box[unat no := v]
      else box @ replicate (unat no - length box) 0 @ [v])"

definition getChunkOffset :: "32 word \<Rightarrow> STCO \<Rightarrow> 64 word" where
  "getChunkOffset no box = (if unat no < length box then box ! unat no else 0)"

definition getEntryCount :: "STCO \<Rightarrow> 32 word" where
  "getEntryCount box = word_of_nat (length box)"

text \<open>
  The loop over the decoded parts of a key of the current track: each part gets the
  running byte offset as its chunk offset. The state is the box, the entry index
  \<open>tot\<close> (the variable \<open>total\<close>) and \<open>totalByteOffset\<close>.
\<close>

fun stco_parts :: "64 word list \<Rightarrow> STCO \<times> 32 word \<times> 64 word \<Rightarrow> STCO \<times> 32 word \<times> 64 word" where
  "stco_parts [] s = s"
| "stco_parts (p # ps) (box, tot, totalByteOffset) =
     stco_parts ps (setChunkOffset totalByteOffset tot box, tot + 1, totalByteOffset + p)"

text \<open>
  The loop over \<open>keyParts\<close> for the track with id \<open>trackid\<close>. \<open>decodeVector\<close> is
  \<open>JSON::decodeVector\<close>, which is defined outside the sources and is a parameter. A key
  of another track advances the offset by its \<open>size\<close>.
\<close>

fun stco_keys ::
  "(string \<Rightarrow> 64 word list) \<Rightarrow> int \<Rightarrow> keyPart list \<Rightarrow> STCO \<times> 32 word \<times> 64 word
     \<Rightarrow> STCO \<times> 32 word \<times> 64 word" where
  "stco_keys decodeVector trackid [] s = s"
| "stco_keys decodeVector trackid (i # rest) (box, tot, totalByteOffset) =
     (if kp_trackID i = trackid
      then stco_keys decodeVector trackid rest
             (stco_parts (decodeVector (kp_parts i)) (box, tot, totalByteOffset))
      else stco_keys decodeVector trackid rest
             (box, tot, totalByteOffset + word_of_int (kp_size i)))"

text \<open>The loop of pass 3 over the entries of one box: \<open>byteOffset\<close> is added to each.\<close>

definition patch_stco :: "64 word \<Rightarrow> STCO \<Rightarrow> STCO" where
  "patch_stco byteOffset box =
     fold (\<lambda>j b. setChunkOffset (getChunkOffset (word_of_nat j) b + byteOffset) (word_of_nat j) b)
       [0..<unat (getEntryCount box)] box"

text \<open>
  What \<open>DTSCMeta2MP4Header\<close> puts into the header for the claim at hand: for each
  track, in order, its table of chunk offsets after pass 3, and the size written into
  the \<open>mdat\<close> header. \<open>ftyp_size\<close> and \<open>moov_size\<close> are \<open>ftypBox.boxedSize()\<close> and
  \<open>moovBox.boxedSize()\<close>, which the box classes compute outside the sources.
\<close>

record MP4Header =
  stco :: "(string \<times> STCO) list"
  mdatSize :: "64 word"

definition DTSCMeta2MP4Header ::
  "(keyPart \<Rightarrow> keyPart \<Rightarrow> bool) \<Rightarrow> (string \<Rightarrow> 64 word list) \<Rightarrow> 64 word \<Rightarrow> 64 word
     \<Rightarrow> (string \<times> Track) list \<Rightarrow> MP4Header" where
  "DTSCMeta2MP4Header lt decodeVector ftyp_size moov_size tracks =
     (let keyParts = collect_keyParts lt tracks;
          boxes = map (\<lambda>(name, tr).
                    (name, stco_keys decodeVector (t_trackid tr) keyParts ([], 0, 0))) tracks;
          byteOffset = ftyp_size + moov_size + 8
      in \<lparr>stco = map (\<lambda>(name, (box, tot, totalByteOffset)). (name, patch_stco byteOffset box)) boxes,
          mdatSize = (if boxes = [] then 0 else snd (snd (snd (last boxes))))\<rparr>)"

text \<open>
  The interleave order: the parts of all keys of \<open>keyParts\<close>, key after key, each part
  with the track it belongs to and its size in bytes.
\<close>

definition interleave :: "(string \<Rightarrow> 64 word list) \<Rightarrow> keyPart list \<Rightarrow> (int \<times> 64 word) list" where
  "interleave decodeVector keyParts =
     concat (map (\<lambda>kp. map (Pair (kp_trackID kp)) (decodeVector (kp_parts kp))) keyParts)"

text \<open>The positions in the interleave order of the parts of track \<open>t\<close>.\<close>

definition track_positions :: "int \<Rightarrow> (int \<times> 64 word) list \<Rightarrow> nat list" where
  "track_positions t parts = filter (\<lambda>j. fst (parts ! j) = t) [0..<length parts]"

text \<open>The sum of the sizes of the parts before position \<open>j\<close>.\<close>

definition bytes_before :: "nat \<Rightarrow> (int \<times> 64 word) list \<Rightarrow> 64 word" where
  "bytes_before j parts = sum_list (map snd (take j parts))"

text \<open>Well-formed metadata: the \<open>size\<close> of every key is the sum of its decoded part
  sizes.\<close>

definition well_formed :: "(string \<Rightarrow> 64 word list) \<Rightarrow> (string \<times> Track) list \<Rightarrow> bool" where
  "well_formed decodeVector tracks \<longleftrightarrow>
     (\<forall>(name, tr) \<in> set tracks. \<forall>k \<in> set (t_keys tr).
        k_size k = (\<Sum>p\<leftarrow>decodeVector (k_parts k). uint p))"

text \<open>The chunk offsets of track \<open>t\<close> read off the interleave order: a running byte
  offset, recorded at each part of \<open>t\<close>.\<close>

fun offsets_of :: "int \<Rightarrow> (int \<times> 64 word) list \<Rightarrow> 64 word \<Rightarrow> 64 word list" where
  "offsets_of t [] off = []"
| "offsets_of t ((t', p) # ps) off = (if t' = t then [off] else []) @ offsets_of t ps (off + p)"


section \<open>Concrete inputs\<close>

text \<open>The buffer after \<open>append(x0)\<close>, \<open>append(x1)\<close>, ... on an empty buffer.\<close>

definition append_all :: "string list \<Rightarrow> Buffer" where
  "append_all xs = foldl (\<lambda>d x. Buffer_append x d) [] xs"

text \<open>What does hold of a stored block: at most \<open>BUFFER_BLOCKSIZE + 1\<close> bytes, and a
  newline only as the last of them.\<close>

definition block_ok :: "string \<Rightarrow> bool" where
  "block_ok b \<longleftrightarrow> length b \<le> Suc BUFFER_BLOCKSIZE \<and> LF \<notin> set (butlast b)"

text \<open>
  Three receive buffers: one whose back block is empty while an older line is still
  queued in front of it, one that holds a single request line, and one without
  blocks. The shared static string of \<open>get\<close> is empty in each.
\<close>

definition stale_back :: Received where
  "stale_back = \<lparr>r_data = [''x'' @ [LF], []], r_empty = []\<rparr>"

definition one_line :: Received where
  "one_line = \<lparr>r_data = [''GET / HTTP/1.0'' @ [LF]], r_empty = []\<rparr>"

definition no_blocks :: Received where
  "no_blocks = \<lparr>r_data = [], r_empty = []\<rparr>"

text \<open>A receive buffer whose front block is empty and whose back block, the only one
  with data, does not end in a newline.\<close>

definition back_then_front :: Received where
  "back_then_front = \<lparr>r_data = [[], ''abc''], r_empty = []\<rparr>"








text \<open>
  For the MP4 header: an ordering of key parts by time, then track; a decoder of
  part sizes that knows two encodings; and the metadata of a stream with one audio
  key of 200 bytes and one video key of 1000 bytes, the audio track first in the
  iteration order of the JSON object.
\<close>

definition by_time_then_track :: "keyPart \<Rightarrow> keyPart \<Rightarrow> bool" where
  "by_time_then_track a b \<longleftrightarrow>
     kp_time a < kp_time b \<or> (kp_time a = kp_time b \<and> kp_trackID a < kp_trackID b)"

definition decode_example :: "string \<Rightarrow> 64 word list" where
  "decode_example s = (if s = ''v'' then [1000] else if s = ''a'' then [200] else [])"

definition two_tracks :: "(string \<times> Track) list" where
  "two_tracks =
     [(''audio'', \<lparr>t_trackid = 2,
                  t_keys = [\<lparr>k_size = 200, k_time = 0, k_len = 23, k_parts = ''a'', k_partsize = 1\<rparr>]\<rparr>),
      (''video'', \<lparr>t_trackid = 1,
                  t_keys = [\<lparr>k_size = 1000, k_time = 0, k_len = 40, k_parts = ''v'', k_partsize = 1\<rparr>]\<rparr>)]"

text \<open>The recursive equations of the loops are unfolded by hand where needed.\<close>

declare append_loop.simps [simp del]
declare Read_join.simps [simp del]
declare parse.simps [simp del]
declare parseVars_loop.simps [simp del]

section \<open>Seek positions: the ordering\<close>

text \<open>
  C10. \<open>seekPos::operator<\<close> is meant to be a strict weak ordering (it orders a
  \<open>std::set\<close>), hence asymmetric. On the code it is not: the positions
  (0, 5, 1) and (0, 3, 2) are each smaller than the other, because the comparison of
  \<open>trackID\<close> is reached whenever the byte position is not smaller, not only when it is
  equal.
\<close>

theorem seekPos_less_not_asymmetric:
  "seekPos_less \<lparr>seekTime = 0, bytePos = 5, trackID = 1\<rparr> \<lparr>seekTime = 0, bytePos = 3, trackID = 2\<rparr>
   \<and> seekPos_less \<lparr>seekTime = 0, bytePos = 3, trackID = 2\<rparr> \<lparr>seekTime = 0, bytePos = 5, trackID = 1\<rparr>"
  by (simp add: seekPos_less_def)

text \<open>The sibling ordering \<open>livePos::operator<\<close> compares the second field only on
  equal times, and is asymmetric.\<close>

lemma livePos_less_asym: "livePos_less a b \<Longrightarrow> \<not> livePos_less b a"
  by (auto simp: livePos_less_def split: if_splits)

section \<open>FLV tags: the timestamp\<close>







section \<open>FLV tags: the loaders and the buffer check\<close>

lemma bindF_Inr [simp]: "bindF (Inr x) f = f x"
  by (simp add: bindF_def)

lemma bindF_Inl [simp]: "bindF (Inl e) f = Inl e"
  by (simp add: bindF_def)

























section \<open>The segmented buffer\<close>

lemma append_loop_Nil: "append_loop d [] = d"
  by (subst append_loop.simps) simp

lemma block_scan_repl:
  "c \<noteq> LF \<Longrightarrow> block_scan (replicate n c) k = (if k \<le> BUFFER_BLOCKSIZE then min (k + n) (Suc BUFFER_BLOCKSIZE) else k)"
  by (induction n arbitrary: k) (auto simp: min_def)

lemma append_one_block:
  assumes "c \<noteq> LF" and "0 < n" and "n \<le> Suc BUFFER_BLOCKSIZE"
  shows "Buffer_append (replicate n c) d = replicate n c # d"
proof -
  have k: "block_scan (replicate n c) 0 = n"
    using assms by (simp add: block_scan_repl)
  have ne: "replicate n c \<noteq> []"
    using assms by simp
  have "append_loop d (replicate n c) = append_loop (replicate n c # d) []"
    using assms ne by (subst append_loop.simps) (simp add: k Let_def)
  then show ?thesis
    by (simp add: Buffer_append_def append_loop_Nil)
qed

lemma block_scan_ge: "k \<le> block_scan rest k"
proof (induction rest arbitrary: k)
  case Nil
  show ?case by simp
next
  case (Cons c cs)
  have "Suc k \<le> block_scan cs (Suc k)"
    by (rule Cons.IH)
  then show ?case by simp
qed

lemma block_scan_pos: "rest \<noteq> [] \<Longrightarrow> 0 < block_scan rest 0"
  using block_scan_ge [of "Suc 0" "tl rest"] by (cases rest) auto

lemma contents_append_loop: "contents (append_loop d rest) = contents d @ rest"
proof (induction d rest rule: append_loop.induct)
  case (1 d rest)
  show ?case
  proof (cases "rest = []")
    case True
    then show ?thesis by (simp add: append_loop_Nil)
  next
    case False
    let ?k = "block_scan rest 0"
    have k: "?k \<noteq> 0" using block_scan_pos [OF False] by simp
    have "contents (append_loop d rest) = contents (append_loop (take ?k rest # d) (drop ?k rest))"
      using False k by (subst append_loop.simps) (simp add: Let_def)
    also have "\<dots> = contents (take ?k rest # d) @ drop ?k rest"
      using "1.IH" [OF False refl k] .
    also have "\<dots> = contents d @ rest"
      by (simp add: contents_def)
    finally show ?thesis .
  qed
qed

lemma available_loop_exact:
  "i + length (concat bs) < 2 ^ 32 \<Longrightarrow>
   available_loop count i bs \<longleftrightarrow> bs \<noteq> [] \<and> count \<le> i + length (concat bs)"
proof (induction bs arbitrary: i)
  case Nil
  then show ?case by simp
next
  case (Cons b bs)
  have small: "i + length b < 2 ^ 32"
    using Cons.prems by simp
  then have m: "(i + length b) mod 2 ^ 32 = i + length b"
    by (rule mod_less)
  have "(i + length b) + length (concat bs) < 2 ^ 32"
    using Cons.prems by simp
  from Cons.IH [OF this] show ?case
    unfolding available_loop.simps m Let_def by (cases bs) auto
qed

lemma remove_loop_spec:
  "i \<le> count \<Longrightarrow> count - i \<le> length (concat bs) \<Longrightarrow> bs \<noteq> [] \<Longrightarrow>
   fst (remove_loop count i bs) = take (count - i) (concat bs)
   \<and> concat (snd (remove_loop count i bs)) = drop (count - i) (concat bs)
   \<and> length (snd (remove_loop count i bs)) = length bs"
proof (induction bs arbitrary: i)
  case Nil
  then show ?case by simp
next
  case (Cons b bs)
  show ?case
  proof (cases "i + length b < count")
    case True
    then have ne: "bs \<noteq> []" using Cons.prems by auto
    have "i + length b \<le> count" "count - (i + length b) \<le> length (concat bs)"
      using True Cons.prems by auto
    from Cons.IH [OF this ne] True show ?thesis
      by (auto simp: split_beta)
  next
    case False
    then show ?thesis using Cons.prems by auto
  qed
qed


section \<open>The HTTP parser\<close>

lemma hex_unhex: "\<not> unreserved c \<Longrightarrow> urlunescape (CHR ''%'' # hex c @ rest) = c # urlunescape rest"
  apply (cases c)
  subgoal for b0 b1 b2 b3 b4 b5 b6 b7
    apply (cases b0; cases b1; cases b2; cases b3; cases b4; cases b5; cases b6; cases b7)
    apply (simp_all add: hex_def unhex_def char_val_def to_char_def unreserved_def Let_def char_of_eq_iff)
    done
  done



lemma unreserved_plain: "unreserved c \<Longrightarrow> c \<noteq> CHR ''%'' \<and> c \<noteq> CHR ''+''"
  by (auto simp: unreserved_def char_val_def)

lemma Buffer_get_assign_get [simp]: "Buffer_get (Buffer_get_assign s st) = s"
  by (simp add: Buffer_get_def Buffer_get_assign_def)

lemma Buffer_size_id:
  assumes "Buffer_get st \<noteq> []"
  shows "Buffer_size (r_data st) = (length (r_data st), r_data st)"
proof (cases "r_data st = []")
  case True
  then show ?thesis by (simp add: Buffer_size_def)
next
  case False
  then have "last (r_data st) \<noteq> []"
    using assms by (simp add: Buffer_get_def)
  then have "hd (rev (r_data st)) \<noteq> []"
    using False by (simp add: hd_rev)
  then have "dropWhile (\<lambda>b. b = []) (rev (r_data st)) = rev (r_data st)"
    using False by (cases "rev (r_data st)") auto
  then show ?thesis by (simp add: Buffer_size_def Let_def)
qed

lemma Read_join_total: "Buffer_get st \<noteq> [] \<Longrightarrow> \<exists>r. Read_join st = Inr r"
proof (induction st rule: Read_join.induct)
  case (1 st)
  note ne = "1.prems"
  have sz: "Buffer_size (r_data st) = (length (r_data st), r_data st)"
    by (rule Buffer_size_id [OF ne])
  show ?case
  proof (cases "last (Buffer_get st) \<noteq> LF \<and> length (r_data st) > 1")
    case False
    then show ?thesis using ne sz
      by (subst Read_join.simps) (auto simp: Let_def)
  next
    case True
    define st1 where "st1 = st\<lparr>r_data := r_data st\<rparr>"
    define st2 where "st2 = Buffer_get_assign [] st1"
    define st3 where "st3 = st2\<lparr>r_data := snd (Buffer_size (r_data st2))\<rparr>"
    define st4 where "st4 = Buffer_get_assign (Buffer_get st1 @ Buffer_get st3) st3"
    have g4: "Buffer_get st4 \<noteq> []"
      using ne by (simp add: st4_def st1_def)
    have l: "last (Buffer_get st) \<noteq> LF" and n: "1 < length (r_data st)"
      using True by simp_all
    have "\<exists>r. Read_join st4 = Inr r"
      unfolding st4_def st3_def st2_def st1_def
      by (rule "1.IH" [OF ne l refl sz [symmetric] refl n refl refl refl refl])
         (use g4 in \<open>simp add: st4_def st3_def st2_def st1_def\<close>)
    moreover have "Read_join st = Read_join st4"
      using ne True sz
      by (subst Read_join.simps) (simp add: Let_def st4_def st3_def st2_def st1_def)
    ultimately show ?thesis by simp
  qed
qed


section \<open>MP4 chunk offsets\<close>

lemma offsets_of_append:
  "offsets_of t (xs @ ys) off = offsets_of t xs off @ offsets_of t ys (off + sum_list (map snd xs))"
  by (induction xs arbitrary: off) (auto simp: add.assoc)

lemma offsets_of_other:
  "t' \<noteq> t \<Longrightarrow> offsets_of t (map (Pair t') ps) off = []"
  by (induction ps arbitrary: off) auto

lemma length_offsets_of_same: "length (offsets_of t (map (Pair t) ps) off) = length ps"
  by (induction ps arbitrary: off) auto

lemma setChunkOffset_end: "unat tot = length box \<Longrightarrow> setChunkOffset v tot box = box @ [v]"
  by (simp add: setChunkOffset_def)

lemma unat_succ32: "unat (tot :: 32 word) + 1 < 2 ^ 32 \<Longrightarrow> unat (tot + 1) = unat tot + 1"
  by (simp add: unat_word_ariths)

lemma stco_parts_spec:
  "unat tot = length box \<Longrightarrow> length box + length ps < 2 ^ 32 \<Longrightarrow>
   stco_parts ps (box, tot, off)
     = (box @ offsets_of t (map (Pair t) ps) off, tot + word_of_nat (length ps), off + sum_list ps)"
proof (induction ps arbitrary: box tot off)
  case Nil
  then show ?case by simp
next
  case (Cons p ps)
  have 1: "unat (tot + 1) = length (box @ [off])"
    using Cons.prems unat_succ32 [of tot] by simp
  have 2: "length (box @ [off]) + length ps < 2 ^ 32"
    using Cons.prems by simp
  show ?case
    using Cons.IH [OF 1 2, of "off + p"] Cons.prems(1)
    by (simp add: setChunkOffset_end add.assoc)
qed

lemma word_of_int_sum_uint: "word_of_int (\<Sum>p\<leftarrow>ps. uint p) = sum_list (ps :: 64 word list)"
  by (induction ps) simp_all

lemma sum_interleave_Cons:
  "sum_list (map (snd \<circ> Pair t) ps) = sum_list ps"
  by (simp add: comp_def)

lemma stco_keys_spec:
  assumes "\<forall>kp \<in> set kps. kp_size kp = (\<Sum>p\<leftarrow>dv (kp_parts kp). uint p)"
    and "unat tot = length box"
    and "length box + length (offsets_of t (interleave dv kps) off) < 2 ^ 32"
  shows "fst (stco_keys dv t kps (box, tot, off)) = box @ offsets_of t (interleave dv kps) off
       \<and> snd (snd (stco_keys dv t kps (box, tot, off))) = off + sum_list (map snd (interleave dv kps))"
  using assms
proof (induction kps arbitrary: box tot off)
  case Nil
  then show ?case by (simp add: interleave_def)
next
  case (Cons kp kps)
  let ?ps = "dv (kp_parts kp)"
  have il: "interleave dv (kp # kps) = map (Pair (kp_trackID kp)) ?ps @ interleave dv kps"
    by (simp add: interleave_def)
  have wf: "\<forall>kp \<in> set kps. kp_size kp = (\<Sum>p\<leftarrow>dv (kp_parts kp). uint p)"
    using Cons.prems(1) by simp
  have sz: "word_of_int (kp_size kp) = sum_list ?ps"
    using Cons.prems(1) by (simp add: word_of_int_sum_uint)
  show ?case
  proof (cases "kp_trackID kp = t")
    case True
    have bound: "length box + length ?ps + length (offsets_of t (interleave dv kps) (off + sum_list ?ps)) < 2 ^ 32"
      using Cons.prems(3) True
      by (simp add: il offsets_of_append length_offsets_of_same sum_interleave_Cons)
    then have b1: "length box + length ?ps < 2 ^ 32"
      by simp
    have step: "stco_parts ?ps (box, tot, off)
        = (box @ offsets_of t (map (Pair t) ?ps) off, tot + word_of_nat (length ?ps), off + sum_list ?ps)"
      by (rule stco_parts_spec [OF Cons.prems(2) b1])
    have u: "unat (tot + word_of_nat (length ?ps)) = length (box @ offsets_of t (map (Pair t) ?ps) off)"
      using Cons.prems(2) b1
      by (simp add: length_offsets_of_same unat_word_ariths unat_of_nat)
    have b2: "length (box @ offsets_of t (map (Pair t) ?ps) off)
        + length (offsets_of t (interleave dv kps) (off + sum_list ?ps)) < 2 ^ 32"
      using bound by (simp add: length_offsets_of_same)
    from Cons.IH [OF wf u b2] show ?thesis
      using True
      by (simp add: step il offsets_of_append sum_interleave_Cons add.assoc)
  next
    case False
    have b2: "length box + length (offsets_of t (interleave dv kps) (off + sum_list ?ps)) < 2 ^ 32"
      using Cons.prems(3) False
      by (simp add: il offsets_of_append offsets_of_other sum_interleave_Cons)
    from Cons.IH [OF wf Cons.prems(2) b2] show ?thesis
      using False
      by (simp add: sz il offsets_of_append offsets_of_other sum_interleave_Cons add.assoc)
  qed
qed


lemma track_positions_Cons:
  "track_positions t ((t', p) # ps) = (if t' = t then [0] else []) @ map Suc (track_positions t ps)"
proof -
  have "[0..<length ((t', p) # ps)] = 0 # map Suc [0..<length ps]"
    by (simp add: upt_conv_Cons map_Suc_upt del: upt_Suc)
  then show ?thesis
    by (simp add: track_positions_def filter_map comp_def)
qed

lemma bytes_before_Suc: "bytes_before (Suc j) ((t', p) # ps) = p + bytes_before j ps"
  by (simp add: bytes_before_def)

lemma offsets_of_positions:
  "offsets_of t ps off = map (\<lambda>j. off + bytes_before j ps) (track_positions t ps)"
proof (induction ps arbitrary: off)
  case Nil
  show ?case by (simp add: track_positions_def)
next
  case (Cons x ps)
  obtain t' p where x: "x = (t', p)"
    by (cases x)
  have z: "\<And>qs. bytes_before 0 qs = 0"
    by (simp add: bytes_before_def)
  show ?case
    unfolding x offsets_of.simps track_positions_Cons Cons.IH
    by (simp add: z bytes_before_Suc comp_def add.assoc)
qed

lemma patch_fold:
  assumes "n \<le> length box" and "length box < 2 ^ 32"
  shows "fold (\<lambda>j b. setChunkOffset (getChunkOffset (word_of_nat j) b + off) (word_of_nat j) b) [0..<n] box
       = map (\<lambda>e. e + off) (take n box) @ drop n box"
  using assms(1)
proof (induction n)
  case 0
  show ?case by simp
next
  case (Suc n)
  let ?b = "map (\<lambda>e. e + off) (take n box) @ drop n box"
  have n: "n < length box"
    using Suc.prems by simp
  have u: "unat (word_of_nat n :: 32 word) = n"
    using n assms(2) by (simp add: unat_of_nat)
  have lb: "length ?b = length box"
    using n by simp
  have nth: "?b ! n = box ! n"
    using n by (simp add: nth_append)
  have "setChunkOffset (getChunkOffset (word_of_nat n) ?b + off) (word_of_nat n) ?b
      = ?b[n := box ! n + off]"
    using n by (simp only: setChunkOffset_def getChunkOffset_def u lb nth if_True)
  also have "\<dots> = map (\<lambda>e. e + off) (take (Suc n) box) @ drop (Suc n) box"
    using n
    by (simp add: list_update_append take_Suc_conv_app_nth Cons_nth_drop_Suc [symmetric])
  finally show ?case
    using Suc.IH n by simp
qed

lemma patch_stco_map:
  assumes "length box < 2 ^ 32"
  shows "patch_stco off box = map (\<lambda>e. e + off) box"
proof -
  have "unat (getEntryCount box) = length box"
    using assms by (simp add: getEntryCount_def unat_of_nat)
  then show ?thesis
    using patch_fold [OF order_refl assms, of off] by (simp add: patch_stco_def)
qed

lemma set_insert_subset: "set (set_insert lt x xs) \<subseteq> insert x (set xs)"
  by (induction xs) auto

lemma insert_key_wf:
  assumes "\<forall>kp \<in> set kps. kp_size kp = (\<Sum>p\<leftarrow>dv (kp_parts kp). uint p)"
    and "k_size k = (\<Sum>p\<leftarrow>dv (k_parts k). uint p)"
  shows "\<forall>kp \<in> set (insert_key lt tid kps k). kp_size kp = (\<Sum>p\<leftarrow>dv (kp_parts kp). uint p)"
proof
  fix kp
  assume "kp \<in> set (insert_key lt tid kps k)"
  then have "kp \<in> set kps \<or> (kp_size kp = k_size k \<and> kp_parts kp = k_parts k)"
    using set_insert_subset [of lt _ kps] by (fastforce simp: insert_key_def split: if_splits)
  then show "kp_size kp = (\<Sum>p\<leftarrow>dv (kp_parts kp). uint p)"
    using assms by auto
qed

lemma insert_keys_wf:
  assumes "\<forall>kp \<in> set kps. kp_size kp = (\<Sum>p\<leftarrow>dv (kp_parts kp). uint p)"
    and "\<forall>k \<in> set ks. k_size k = (\<Sum>p\<leftarrow>dv (k_parts k). uint p)"
  shows "\<forall>kp \<in> set (foldl (insert_key lt tid) kps ks). kp_size kp = (\<Sum>p\<leftarrow>dv (kp_parts kp). uint p)"
  using assms
proof (induction ks arbitrary: kps)
  case Nil
  then show ?case by simp
next
  case (Cons k ks)
  have "\<forall>kp \<in> set (insert_key lt tid kps k). kp_size kp = (\<Sum>p\<leftarrow>dv (kp_parts kp). uint p)"
    using Cons.prems by (intro insert_key_wf) simp_all
  then show ?case
    using Cons.IH [of "insert_key lt tid kps k"] Cons.prems(2) by simp
qed

lemma collect_wf_gen:
  assumes "\<forall>kp \<in> set kps. kp_size kp = (\<Sum>p\<leftarrow>dv (kp_parts kp). uint p)"
    and "well_formed dv tracks"
  shows "\<forall>kp \<in> set (foldl (\<lambda>keyParts (name, tr). foldl (insert_key lt (t_trackid tr)) keyParts (t_keys tr))
                        kps tracks). kp_size kp = (\<Sum>p\<leftarrow>dv (kp_parts kp). uint p)"
  using assms
proof (induction tracks arbitrary: kps)
  case Nil
  then show ?case by simp
next
  case (Cons x tracks)
  obtain name tr where x: "x = (name, tr)"
    by (cases x)
  have k: "\<forall>k \<in> set (t_keys tr). k_size k = (\<Sum>p\<leftarrow>dv (k_parts k). uint p)"
    using Cons.prems(2) by (auto simp: well_formed_def x)
  have w: "well_formed dv tracks"
    using Cons.prems(2) by (simp add: well_formed_def)
  have "\<forall>kp \<in> set (foldl (insert_key lt (t_trackid tr)) kps (t_keys tr)).
      kp_size kp = (\<Sum>p\<leftarrow>dv (kp_parts kp). uint p)"
    by (rule insert_keys_wf [OF Cons.prems(1) k])
  from Cons.IH [OF this w] show ?case
    by (simp add: x)
qed

lemma collect_wf:
  "well_formed dv tracks \<Longrightarrow>
   \<forall>kp \<in> set (collect_keyParts lt tracks). kp_size kp = (\<Sum>p\<leftarrow>dv (kp_parts kp). uint p)"
  unfolding collect_keyParts_def by (rule collect_wf_gen) simp_all

text \<open>
  C1. For well-formed metadata (the \<open>size\<close> of every key of every track is the sum of
  its decoded part sizes), in the header that \<open>DTSCMeta2MP4Header\<close> produces, the table
  of chunk offsets of the \<open>n\<close>-th track, with track id \<open>t\<close>, has one entry for each part
  of \<open>t\<close> in the interleave order of \<open>keyParts\<close>, and its \<open>i\<close>-th entry is
  \<open>ftyp.boxedSize() + moov.boxedSize() + 8\<close> plus the sum of the sizes of all parts, of any
  track, that precede the \<open>i\<close>-th part of \<open>t\<close> in that order. Offsets are 64-bit values;
  the entry index of the source is a \<open>uint32_t\<close>, as the entry count of the box is, so
  the track has fewer than \<open>2 ^ 32\<close> parts.
\<close>

theorem stco_chunk_offsets:
  assumes wf: "well_formed decodeVector tracks"
    and n: "n < length tracks"
    and t: "t = t_trackid (snd (tracks ! n))"
    and parts: "parts = interleave decodeVector (collect_keyParts lt tracks)"
    and small: "length (track_positions t parts) < 2 ^ 32"
    and i: "i < length (track_positions t parts)"
  shows "length (snd (stco (DTSCMeta2MP4Header lt decodeVector ftyp_size moov_size tracks) ! n))
           = length (track_positions t parts)
       \<and> snd (stco (DTSCMeta2MP4Header lt decodeVector ftyp_size moov_size tracks) ! n) ! i
           = ftyp_size + moov_size + 8 + bytes_before (track_positions t parts ! i) parts"
proof -
  let ?kps = "collect_keyParts lt tracks"
  let ?res = "stco_keys decodeVector t ?kps ([], 0, 0)"
  obtain name tr where tn: "tracks ! n = (name, tr)"
    by (cases "tracks ! n")
  have tt: "t_trackid tr = t"
    using t tn by simp
  have len: "length (offsets_of t parts 0) = length (track_positions t parts)"
    by (simp add: offsets_of_positions)
  have box: "fst ?res = offsets_of t parts 0"
    using stco_keys_spec [OF collect_wf [OF wf, of lt], where tot = 0 and box = "[]" and t = t and off = 0] small len
    by (simp add: parts)
  have lb: "length (fst ?res) < 2 ^ 32"
    using small len box by simp
  have "snd (stco (DTSCMeta2MP4Header lt decodeVector ftyp_size moov_size tracks) ! n)
      = patch_stco (ftyp_size + moov_size + 8) (fst ?res)"
    using n by (simp add: DTSCMeta2MP4Header_def Let_def tn tt split_beta)
  also have "\<dots> = map (\<lambda>e. e + (ftyp_size + moov_size + 8)) (offsets_of t parts 0)"
    using patch_stco_map [OF lb] box by simp
  finally have eq: "snd (stco (DTSCMeta2MP4Header lt decodeVector ftyp_size moov_size tracks) ! n)
      = map (\<lambda>e. e + (ftyp_size + moov_size + 8)) (offsets_of t parts 0)" .
  show ?thesis
    unfolding eq using i by (simp add: offsets_of_positions)
qed

text \<open>
  The stream of the spec's scenario: the video part comes first in the interleave
  order, so the video chunk starts right after the header and the audio chunk 1000
  bytes later.
\<close>

lemma two_tracks_parts:
  "interleave decode_example (collect_keyParts by_time_then_track two_tracks) = [(1, 1000), (2, 200)]"
  by (simp add: interleave_def collect_keyParts_def two_tracks_def insert_key_def
        by_time_then_track_def decode_example_def)

theorem stco_chunk_offsets_witness:
  "snd (stco (DTSCMeta2MP4Header by_time_then_track decode_example 32 700 two_tracks) ! 0) ! 0
     = 32 + 700 + 8 + 1000
   \<and> snd (stco (DTSCMeta2MP4Header by_time_then_track decode_example 32 700 two_tracks) ! 1) ! 0
     = 32 + 700 + 8"
proof -
  have wf: "well_formed decode_example two_tracks"
    by (simp add: well_formed_def two_tracks_def decode_example_def)
  have pa: "track_positions 2 [(1, 1000), (2, 200)] = [1]"
    and pv: "track_positions 1 [(1, 1000), (2, 200)] = [0]"
    by (simp_all add: track_positions_def upt_rec)
  have a: "snd (stco (DTSCMeta2MP4Header by_time_then_track decode_example 32 700 two_tracks) ! 0) ! 0
      = 32 + 700 + 8 + bytes_before 1 [(1, 1000), (2, 200)]"
    using stco_chunk_offsets [OF wf, where n = 0 and t = 2 and i = 0
        and parts = "[(1, 1000), (2, 200)]" and lt = by_time_then_track
        and ftyp_size = 32 and moov_size = 700]
    by (simp add: two_tracks_parts pa) (simp add: two_tracks_def)
  have v: "snd (stco (DTSCMeta2MP4Header by_time_then_track decode_example 32 700 two_tracks) ! 1) ! 0
      = 32 + 700 + 8 + bytes_before 0 [(1, 1000), (2, 200)]"
    using stco_chunk_offsets [OF wf, where n = 1 and t = 1 and i = 0
        and parts = "[(1, 1000), (2, 200)]" and lt = by_time_then_track
        and ftyp_size = 32 and moov_size = 700]
    by (simp add: two_tracks_parts pv) (simp add: two_tracks_def)
  show ?thesis
    using a v by (simp add: bytes_before_def)
qed

section \<open>The buffer is first in, first out\<close>

lemma contents_foldl_append:
  "contents (foldl (\<lambda>d x. Buffer_append x d) d xs) = contents d @ concat xs"
  by (induction xs arbitrary: d) (simp_all add: Buffer_append_def contents_append_loop)

lemma contents_append_all: "contents (append_all xs) = concat xs"
  using contents_foldl_append [of "[]" xs] by (simp add: append_all_def contents_def)

lemma length_concat_rev: "length (concat (rev bs)) = length (concat bs)"
  by (induction bs) simp_all

lemma remove_fifo:
  assumes "length (contents b) < 2 ^ 32"
  shows "(k \<le> length (contents b) \<longrightarrow>
            fst (Buffer_remove k b) = take k (contents b)
          \<and> contents (snd (Buffer_remove k b)) = drop k (contents b))
       \<and> (length (contents b) < k \<longrightarrow> Buffer_remove k b = ([], b))"
proof (cases "b = []")
  case True
  then show ?thesis
    by (simp add: Buffer_remove_def Buffer_available_def contents_def)
next
  case False
  have small: "0 + length (concat b) < 2 ^ 32"
    using assms length_concat_rev [of b] by (simp add: contents_def)
  have av: "Buffer_available k b \<longleftrightarrow> k \<le> length (contents b)"
    using available_loop_exact [OF small, of k] False length_concat_rev [of b]
    by (simp add: Buffer_available_def contents_def)
  have ge: "fst (remove_loop k 0 (rev b)) = take (k - 0) (concat (rev b))
        \<and> concat (snd (remove_loop k 0 (rev b))) = drop (k - 0) (concat (rev b))
        \<and> length (snd (remove_loop k 0 (rev b))) = length (rev b)"
    if "k \<le> length (contents b)"
    using that False by (intro remove_loop_spec) (simp_all add: contents_def)
  show ?thesis
    using av ge by (auto simp: Buffer_remove_def contents_def split_beta)
qed

text \<open>
  C2. After \<open>append(x0)\<close>, \<open>append(x1)\<close>, ... on an empty buffer, \<open>remove(k)\<close> returns the
  first \<open>k\<close> bytes of the concatenation \<open>x0 x1 ...\<close> and leaves the remaining bytes
  queued when at least \<open>k\<close> bytes are queued; otherwise it returns the empty string and
  leaves the buffer as it is. The byte counter of \<open>available\<close> is an \<open>unsigned int\<close>:
  the buffer holds fewer than \<open>2 ^ 32\<close> bytes.
\<close>

theorem Buffer_fifo:
  assumes "length (concat xs) < 2 ^ 32"
  shows "(k \<le> length (concat xs) \<longrightarrow>
            fst (Buffer_remove k (append_all xs)) = take k (concat xs)
          \<and> contents (snd (Buffer_remove k (append_all xs))) = drop k (concat xs))
       \<and> (length (concat xs) < k \<longrightarrow>
            Buffer_remove k (append_all xs) = ([], append_all xs))"
  using remove_fifo [of "append_all xs" k] assms by (simp add: contents_append_all)

theorem Buffer_fifo_witness:
  "fst (Buffer_remove 4 (append_all [''ab'', ''cdef''])) = ''abcd''
   \<and> contents (snd (Buffer_remove 4 (append_all [''ab'', ''cdef'']))) = ''ef''
   \<and> Buffer_remove 7 (append_all [''ab'', ''cdef'']) = ([], append_all [''ab'', ''cdef''])"
  using Buffer_fifo [of "[''ab'', ''cdef'']" 4] Buffer_fifo [of "[''ab'', ''cdef'']" 7]
  by simp

section \<open>The size of a block\<close>

text \<open>
  C8. Every stored block is meant to hold at most \<open>BUFFER_BLOCKSIZE\<close> = 4096 bytes.
  The inner loop of \<open>append\<close> goes on while \<open>j - i <= BUFFER_BLOCKSIZE\<close>, so it takes one
  byte more: 4097 bytes without a newline, appended to an empty buffer, are stored as
  a single block of 4097 bytes.
\<close>

theorem append_block_exceeds_blocksize:
  "Buffer_append (replicate 4097 (CHR ''a'')) [] = [replicate 4097 (CHR ''a'')]
   \<and> BUFFER_BLOCKSIZE < length (replicate 4097 (CHR ''a''))"
proof
  show "Buffer_append (replicate 4097 (CHR ''a'')) [] = [replicate 4097 (CHR ''a'')]"
    by (rule append_one_block) (simp_all add: BUFFER_BLOCKSIZE_def)
  show "BUFFER_BLOCKSIZE < length (replicate 4097 (CHR ''a''))"
    by (simp add: BUFFER_BLOCKSIZE_def)
qed

text \<open>The bound that the loop does keep is one byte more, and a block is cut after its
  first newline: this holds of every block after any sequence of appends.\<close>

lemma block_scan_le: "block_scan rest k \<le> k + length rest"
proof (induction rest arbitrary: k)
  case Nil
  show ?case by simp
next
  case (Cons c cs)
  have "block_scan cs (Suc k) \<le> Suc k + length cs"
    by (rule Cons.IH)
  then show ?case by simp
qed

lemma block_scan_bound: "k \<le> Suc BUFFER_BLOCKSIZE \<Longrightarrow> block_scan rest k \<le> Suc BUFFER_BLOCKSIZE"
proof (induction rest arbitrary: k)
  case Nil
  then show ?case by simp
next
  case (Cons c cs)
  show ?case
  proof (cases "k \<le> BUFFER_BLOCKSIZE")
    case True
    then have "block_scan cs (Suc k) \<le> Suc BUFFER_BLOCKSIZE"
      by (intro Cons.IH) simp
    then show ?thesis using True by simp
  next
    case False
    then show ?thesis using Cons.prems by simp
  qed
qed

lemma block_scan_no_newline: "LF \<notin> set (take (block_scan rest k - Suc k) rest)"
proof (induction rest arbitrary: k)
  case Nil
  show ?case by simp
next
  case (Cons c cs)
  show ?case
  proof (cases "k \<le> BUFFER_BLOCKSIZE \<and> c \<noteq> LF")
    case True
    have ge: "Suc k \<le> block_scan cs (Suc k)"
      by (rule block_scan_ge)
    have ih: "LF \<notin> set (take (block_scan cs (Suc k) - Suc (Suc k)) cs)"
      by (rule Cons.IH)
    show ?thesis
    proof (cases "block_scan cs (Suc k) = Suc k")
      case True
      then show ?thesis using \<open>k \<le> BUFFER_BLOCKSIZE \<and> c \<noteq> LF\<close> by simp
    next
      case False
      then obtain m where m: "block_scan cs (Suc k) - Suc k = Suc m"
        using ge by (cases "block_scan cs (Suc k) - Suc k") auto
      then have "block_scan cs (Suc k) - Suc (Suc k) = m"
        by simp
      then show ?thesis
        using True ih m by auto
    qed
  next
    case False
    then show ?thesis by auto
  qed
qed

lemma first_block_ok: "block_ok (take (block_scan rest 0) rest)"
proof -
  let ?n = "block_scan rest 0"
  have le: "?n \<le> length rest"
    using block_scan_le [of rest 0] by simp
  have "butlast (take ?n rest) = take (?n - Suc 0) rest"
    using le by (simp add: butlast_take)
  then have "LF \<notin> set (butlast (take ?n rest))"
    using block_scan_no_newline [of rest 0] by simp
  moreover have "length (take ?n rest) \<le> Suc BUFFER_BLOCKSIZE"
    using block_scan_bound [of 0 rest] by simp
  ultimately show ?thesis
    by (simp add: block_ok_def)
qed

lemma append_loop_blocks_ok:
  "\<forall>b \<in> set d. block_ok b \<Longrightarrow> \<forall>b \<in> set (append_loop d rest). block_ok b"
proof (induction d rest rule: append_loop.induct)
  case (1 d rest)
  show ?case
  proof (cases "rest = [] \<or> block_scan rest 0 = 0")
    case True
    then show ?thesis
      using "1.prems" by (subst append_loop.simps) (auto simp: Let_def)
  next
    case False
    let ?k = "block_scan rest 0"
    have ok: "\<forall>b \<in> set (take ?k rest # d). block_ok b"
      using "1.prems" first_block_ok [of rest] by simp
    have "\<forall>b \<in> set (append_loop (take ?k rest # d) (drop ?k rest)). block_ok b"
      using False by (intro "1.IH" [OF _ refl _ ok]) simp_all
    then show ?thesis
      using False by (subst append_loop.simps) (simp add: Let_def)
  qed
qed

lemma append_all_blocks_ok: "\<forall>b \<in> set (append_all xs). block_ok b"
proof -
  have "\<forall>b \<in> set d. block_ok b \<Longrightarrow> \<forall>b \<in> set (foldl (\<lambda>d x. Buffer_append x d) d xs). block_ok b" for d
  proof (induction xs arbitrary: d)
    case Nil
    then show ?case by simp
  next
    case (Cons x xs)
    have "\<forall>b \<in> set (Buffer_append x d). block_ok b"
      unfolding Buffer_append_def by (rule append_loop_blocks_ok [OF Cons.prems])
    from Cons.IH [OF this] show ?case by simp
  qed
  from this [of "[]"] show ?thesis
    by (simp add: append_all_def)
qed

section \<open>A chunked response\<close>

text \<open>
  C4. From a freshly constructed parser and the chunked response
  \<open>HTTP/1.1 200 OK\r\nTransfer-Encoding: chunked\r\n\r\n5\r\nhello\r\n0\r\n\r\n\<close> in a
  string buffer, calling \<open>Read\<close> on the remaining buffer again and again returns true
  at the fourth call (the first three return false); then \<open>body\<close> is \<open>hello\<close> and
  \<open>getChunks\<close> is false again.
\<close>

theorem chunked_response_read:
  "Read_repeat 3 Parser_new chunked_response = None
   \<and> map_option (\<lambda>(p, rest). (body p, getChunks p)) (Read_repeat 4 Parser_new chunked_response)
       = Some (''hello'', False)"
  by code_simp

section \<open>URL encoding\<close>

text \<open>
  C7. For every byte string \<open>s\<close>, \<open>urlunescape(urlencode(s))\<close> is \<open>s\<close>.
\<close>

theorem urlunescape_urlencode: "urlunescape (urlencode s) = s"
proof (induction s)
  case Nil
  show ?case by simp
next
  case (Cons c s)
  show ?case
  proof (cases "unreserved c")
    case True
    then show ?thesis using Cons unreserved_plain [OF True] by simp
  next
    case False
    then show ?thesis using Cons hex_unhex [OF False, of "urlencode s"] by simp
  qed
qed

section \<open>Reading from a connection: when it is defined\<close>

lemma Read_join_fault: "Buffer_get st = [] \<Longrightarrow> Read_join st = Inl DerefEmpty"
  by (subst Read_join.simps) simp

lemma Read_conn_fault_iff: "Read_conn p st = Inl DerefEmpty \<longleftrightarrow> Buffer_get st = []"
proof (cases "Buffer_get st = []")
  case True
  then show ?thesis
    by (simp add: Read_conn_def Read_join_fault)
next
  case False
  then obtain r where "Read_join st = Inr r"
    using Read_join_total by blast
  then show ?thesis
    using False by (cases r) (auto simp: Read_conn_def split_beta Let_def split: bool.splits)
qed

lemma Read_conn_total: "Buffer_get st \<noteq> [] \<Longrightarrow> \<exists>r. Read_conn p st = Inr r"
proof -
  assume "Buffer_get st \<noteq> []"
  then obtain r where "Read_join st = Inr r"
    using Read_join_total by blast
  then show ?thesis
    by (cases r) (auto simp: Read_conn_def split_beta Let_def split: bool.splits)
qed

text \<open>
  C9. \<open>Read(Socket::Connection &)\<close> first dereferences \<open>rbegin()\<close> of the string that
  \<open>get\<close> returns. When the back block of the receive buffer exists and is non-empty,
  \<open>Read\<close> returns a result (it is total). When the buffer has no blocks, or its back
  block is empty, and the shared static string of \<open>get\<close> is still empty, the
  dereference is undefined.
\<close>

theorem Read_conn_defined:
  "(r_data st \<noteq> [] \<and> last (r_data st) \<noteq> [] \<longrightarrow> (\<exists>r. Read_conn p st = Inr r))
   \<and> (r_empty st = [] \<and> (r_data st = [] \<or> last (r_data st) = [])
        \<longrightarrow> Read_conn p st = Inl DerefEmpty)"
proof (intro conjI impI)
  assume "r_data st \<noteq> [] \<and> last (r_data st) \<noteq> []"
  then have "Buffer_get st \<noteq> []"
    by (simp add: Buffer_get_def)
  then show "\<exists>r. Read_conn p st = Inr r"
    by (rule Read_conn_total)
next
  assume "r_empty st = [] \<and> (r_data st = [] \<or> last (r_data st) = [])"
  then have "Buffer_get st = []"
    by (auto simp: Buffer_get_def)
  then show "Read_conn p st = Inl DerefEmpty"
    by (simp add: Read_conn_fault_iff)
qed

theorem Read_conn_defined_witness:
  "(\<exists>r. Read_conn Parser_new one_line = Inr r) \<and> Read_conn Parser_new no_blocks = Inl DerefEmpty"
  using Read_conn_defined [of one_line Parser_new] Read_conn_defined [of no_blocks Parser_new]
  by (simp add: one_line_def no_blocks_def)

text \<open>
  A non-empty block somewhere in the buffer is not enough: with an empty back block
  behind a queued line, \<open>get\<close> returns the empty back block and the dereference is
  undefined.
\<close>

theorem Read_conn_stale_back_faults:
  "r_data stale_back ! 0 \<noteq> [] \<and> Read_conn Parser_new stale_back = Inl DerefEmpty"
  by (simp add: stale_back_def Read_conn_fault_iff Buffer_get_def)

text \<open>
  The static string does not stay empty for ever: when the only block with data is
  the back block, and it does not end in a newline, the loop of \<open>Read\<close> pops every
  block and inserts the data into the static string, through the reference that
  \<open>get\<close> returns for a buffer without blocks.
\<close>

lemma Read_conn_writes_static:
  "map_sum id (\<lambda>(r, p, st). (r, st)) (Read_conn Parser_new back_then_front)
     = Inr (False, \<lparr>r_data = [], r_empty = ''abc''\<rparr>)"
  by code_simp

section \<open>An invalid tag type\<close>











section \<open>Failure to grow the buffer\<close>








end
